theory Spec2Isabelle
  imports Complex_Main "HOL-Library.Word"
begin

unbundle bit_operations_syntax

section \<open>JavaScript values used by the generator\<close>

text \<open>
  A JavaScript \<open>number\<close>: a finite value (kept as the exact rational it denotes), \<open>NaN\<close>, or
  one of the two infinities. Comparisons of finite values are exact in IEEE arithmetic, and
  every comparison with \<open>NaN\<close> is false.
\<close>

datatype number = Finite rat | NaN | PosInfinity | NegInfinity

fun js_less :: "number \<Rightarrow> number \<Rightarrow> bool" where
  "js_less NaN _ = False"
| "js_less _ NaN = False"
| "js_less (Finite a) (Finite b) = (a < b)"
| "js_less (Finite _) PosInfinity = True"
| "js_less (Finite _) NegInfinity = False"
| "js_less NegInfinity (Finite _) = True"
| "js_less NegInfinity PosInfinity = True"
| "js_less NegInfinity NegInfinity = False"
| "js_less PosInfinity _ = False"

definition js_greater :: "number \<Rightarrow> number \<Rightarrow> bool" where
  "js_greater a b = js_less b a"

text \<open>
  The operator \<open>&\<close> converts both operands to 32-bit two's complement integers, combines
  them bitwise and reads the result as a signed value.
\<close>

definition js_band :: "int \<Rightarrow> int \<Rightarrow> int" where
  "js_band a b = sint ((word_of_int a :: 32 word) AND word_of_int b)"

subsection \<open>Numbers to text\<close>

definition digit_chars :: string where
  "digit_chars = ''0123456789abcdefghijklmnopqrstuvwxyz''"

fun nat_to_string :: "nat \<Rightarrow> string" where
  "nat_to_string n =
     (if n < 10 then [digit_chars ! n]
      else nat_to_string (n div 10) @ [digit_chars ! (n mod 10)])"

declare nat_to_string.simps [simp del]

definition int_to_string :: "int \<Rightarrow> string" where
  "int_to_string i = (if i < 0 then CHR ''-'' # nat_to_string (nat (- i)) else nat_to_string (nat i))"

text \<open>
  \<open>Number::toString\<close> in radix 10, as a template literal applies it. An integral value below
  \<open>10^21\<close> in magnitude prints as its decimal digits. Any other finite value prints as the
  shortest decimal (or exponent form) that reads back as the same double; that text is not
  computed here but taken as the parameter \<open>nonint\<close>, so that every statement below holds
  whatever the engine prints there.
\<close>

definition number_to_string :: "string \<Rightarrow> number \<Rightarrow> string" where
  "number_to_string nonint n =
     (case n of
        NaN \<Rightarrow> ''NaN''
      | PosInfinity \<Rightarrow> ''Infinity''
      | NegInfinity \<Rightarrow> ''-Infinity''
      | Finite q \<Rightarrow>
          if of_int \<lfloor>q\<rfloor> = q \<and> \<bar>q\<bar> < 10 ^ 21 then int_to_string \<lfloor>q\<rfloor> else nonint)"

text \<open>
  \<open>Math.random().toString(36)\<close>: the draw lies in \<open>[0, 1)\<close>, and the engine prints \<open>0\<close> for
  zero and otherwise \<open>0.\<close> followed by the base-36 digits of the fraction. The draw is
  given by those digits, most significant first (\<open>0.5\<close> is the single digit 18, printed
  \<open>0.i\<close>).
\<close>

definition toString36 :: "nat list \<Rightarrow> string" where
  "toString36 ds = (if ds = [] then ''0'' else ''0.'' @ map (\<lambda>d. digit_chars ! (d mod 36)) ds)"

text \<open>
  \<open>String.prototype.substring(start, end)\<close>: both indices are clamped to the length and
  swapped when out of order.
\<close>

definition substring :: "string \<Rightarrow> nat \<Rightarrow> nat \<Rightarrow> string" where
  "substring s start fin =
     (let a = min start (length s); b = min fin (length s)
      in take (max a b - min a b) (drop (min a b) s))"

section \<open>The generator\<close>

datatype error = Error string

record generator =
  sequence :: int
  lastTimestamp :: int
  machineId :: number

text \<open>The constructor: the two field initialisers, then the range check on \<open>machineId\<close>.\<close>

definition TUIDGenerator :: "number \<Rightarrow> error + generator" where
  "TUIDGenerator mid =
     (if js_less mid (Finite 0) \<or> js_greater mid (Finite 1023)
      then Inl (Error ''Machine ID must be between 0 and 1023.'')
      else Inr \<lparr>sequence = 0, lastTimestamp = - 1, machineId = mid\<rparr>)"

text \<open>
  The clock is the list of the values that successive calls of \<open>Date.now()\<close> return, in
  milliseconds. The loop \<open>while (timestamp <= this.lastTimestamp) timestamp = this.currentTimestamp()\<close>
  consumes readings; \<open>None\<close> means that the listed readings ran out before the loop ended.
\<close>

fun busy_wait :: "int \<Rightarrow> int \<Rightarrow> int list \<Rightarrow> (int \<times> int list) option" where
  "busy_wait prev t [] = (if t \<le> prev then None else Some (t, []))"
| "busy_wait prev t (t' # rest) =
     (if t \<le> prev then busy_wait prev t' rest else Some (t, t' # rest))"

definition tuid_string :: "string \<Rightarrow> int \<Rightarrow> number \<Rightarrow> int \<Rightarrow> string \<Rightarrow> string \<Rightarrow> string" where
  "tuid_string nonint t m s r1 r2 =
     int_to_string t @ ''-'' @ number_to_string nonint m @ ''-'' @ int_to_string s
       @ ''-'' @ r1 @ ''-'' @ r2"

text \<open>The tail of \<open>generateV1\<close>: store the timestamp, draw the two segments, compose the text.\<close>

definition emit :: "string \<Rightarrow> generator \<Rightarrow> int \<Rightarrow> int list \<Rightarrow> nat list \<Rightarrow> nat list
    \<Rightarrow> string \<times> generator \<times> int list" where
  "emit nonint g t rest d1 d2 =
     (let g' = g\<lparr>lastTimestamp := t\<rparr>;
          randomString1 = substring (toString36 d1) 2 6;
          randomString2 = substring (toString36 d2) 2 6
      in (tuid_string nonint t (machineId g') (sequence g') randomString1 randomString2, g', rest))"

text \<open>
  \<open>generateV1\<close> on the instance \<open>g\<close>, with the clock readings still to come and the two
  random draws. It returns the identifier, the updated instance and the unread readings.
\<close>

definition generateV1 :: "string \<Rightarrow> generator \<Rightarrow> int list \<Rightarrow> nat list \<Rightarrow> nat list
    \<Rightarrow> (string \<times> generator \<times> int list) option" where
  "generateV1 nonint g clock d1 d2 =
     (case clock of
        [] \<Rightarrow> None
      | t # rest \<Rightarrow>
          if t = lastTimestamp g then
            (let g1 = g\<lparr>sequence := js_band (sequence g + 1) 4095\<rparr> in
             if sequence g1 = 0 then
               (case busy_wait (lastTimestamp g1) t rest of
                  None \<Rightarrow> None
                | Some (t', rest') \<Rightarrow> Some (emit nonint g1 t' rest' d1 d2))
             else Some (emit nonint g1 t rest d1 d2))
          else Some (emit nonint (g\<lparr>sequence := 0\<rparr>) t rest d1 d2))"

text \<open>Successive calls on one instance, each with its own pair of random draws.\<close>

fun generate_many :: "string \<Rightarrow> generator \<Rightarrow> int list \<Rightarrow> (nat list \<times> nat list) list
    \<Rightarrow> ((string \<times> generator) list \<times> int list) option" where
  "generate_many nonint g clock [] = Some ([], clock)"
| "generate_many nonint g clock ((d1, d2) # ds) =
     (case generateV1 nonint g clock d1 d2 of
        None \<Rightarrow> None
      | Some (tuid, g', rest) \<Rightarrow>
          (case generate_many nonint g' rest ds of
             None \<Rightarrow> None
           | Some (out, rest') \<Rightarrow> Some ((tuid, g') # out, rest')))"

section \<open>Validation and parsing\<close>

text \<open>
  Strings are lists of code units; \<^typ>\<open>char\<close> covers the code units below 256, which
  include every character the pattern admits.

  The fragment of regular expressions that \<open>v1Pattern\<close> is written in: a pattern
  anchored by \<open>^\<close> and \<open>$\<close> is a sequence of pieces \<open>class{min,max}\<close>, where a class is
  \<open>\d\<close>, a bracket of ranges, or a literal character (a piece \<open>{1,1}\<close>).
\<close>

datatype char_class = Digit | Ranges "(char \<times> char) list" | Literal char

fun in_class :: "char_class \<Rightarrow> char \<Rightarrow> bool" where
  "in_class Digit c = (48 \<le> (of_char c :: nat) \<and> (of_char c :: nat) \<le> 57)"
| "in_class (Ranges rs) c =
     list_ex (\<lambda>(lo, hi). (of_char lo :: nat) \<le> of_char c \<and> (of_char c :: nat) \<le> of_char hi) rs"
| "in_class (Literal l) c = (c = l)"

type_synonym piece = "char_class \<times> nat \<times> nat"

text \<open>
  Matching from the current position to the end of the input, by backtracking: a piece
  first takes its \<open>min\<close> characters, then greedily up to \<open>max\<close>, and gives a character
  back when the rest of the pattern does not match.
\<close>

fun match_here :: "piece list \<Rightarrow> string \<Rightarrow> bool" where
  "match_here [] s = (s = [])"
| "match_here ((c, lo, hi) # ps) s =
     (if 0 < lo then
        (case s of
           [] \<Rightarrow> False
         | x # xs \<Rightarrow> if in_class c x then match_here ((c, lo - 1, hi - 1) # ps) xs else False)
      else if 0 < hi then
        (if (case s of
               [] \<Rightarrow> False
             | x # xs \<Rightarrow> if in_class c x then match_here ((c, 0, hi - 1) # ps) xs else False)
         then True
         else match_here ps s)
      else match_here ps s)"

declare match_here.simps(2) [simp del]

text \<open>\<open>RegExp.prototype.test\<close> for a pattern anchored at both ends.\<close>

definition test :: "piece list \<Rightarrow> string \<Rightarrow> bool" where
  "test pattern s = match_here pattern s"

text \<open>\<open>/^\d{13}-\d{1,4}-\d{1,4}-[a-z0-9]{4}-[a-z0-9]{4}$/\<close>\<close>

definition v1Pattern :: "piece list" where
  "v1Pattern =
     [(Digit, 13, 13), (Literal CHR ''-'', 1, 1),
      (Digit, 1, 4), (Literal CHR ''-'', 1, 1),
      (Digit, 1, 4), (Literal CHR ''-'', 1, 1),
      (Ranges [(CHR ''a'', CHR ''z''), (CHR ''0'', CHR ''9'')], 4, 4), (Literal CHR ''-'', 1, 1),
      (Ranges [(CHR ''a'', CHR ''z''), (CHR ''0'', CHR ''9'')], 4, 4)]"

definition isValidTUID :: "string \<Rightarrow> bool" where
  "isValidTUID tuid = test v1Pattern tuid"

definition getTUIDVersion :: "string \<Rightarrow> string" where
  "getTUIDVersion tuid = (if isValidTUID tuid then ''v1'' else ''unknown'')"

text \<open>\<open>String.prototype.split\<close> with a one-character separator.\<close>

fun split :: "string \<Rightarrow> char \<Rightarrow> string list" where
  "split [] sep = [[]]"
| "split (c # cs) sep =
     (if c = sep then [] # split cs sep
      else (case split cs sep of [] \<Rightarrow> [[c]] | f # fs \<Rightarrow> (c # f) # fs))"

text \<open>
  An array element by index; \<open>None\<close> is \<open>undefined\<close>, which a destructuring pattern binds
  past the end.
\<close>

definition element :: "'a list \<Rightarrow> nat \<Rightarrow> 'a option" where
  "element xs i = (if i < length xs then Some (xs ! i) else None)"

text \<open>
  \<open>parseInt(string, radix)\<close>: leading white space is skipped, a sign is read, for radix 16
  (or 0) a prefix \<open>0x\<close> is dropped, and the longest prefix of digits of the radix is the
  value; with no digit the result is \<open>NaN\<close>. The value is exact here: the engine rounds it
  to a double, which changes nothing below \<open>2^53\<close>, hence nothing for the at most 13 digits
  that \<open>isValidTUID\<close> admits.
\<close>

definition is_white_space :: "char \<Rightarrow> bool" where
  "is_white_space c = ((of_char c :: nat) \<in> {9, 10, 11, 12, 13, 32, 160})"

definition digit_value :: "char \<Rightarrow> nat" where
  "digit_value c =
     (let n = (of_char c :: nat)
      in if 48 \<le> n \<and> n \<le> 57 then n - 48
         else if 97 \<le> n \<and> n \<le> 122 then n - 87
         else if 65 \<le> n \<and> n \<le> 90 then n - 55
         else 36)"

definition parseInt :: "string \<Rightarrow> nat \<Rightarrow> number" where
  "parseInt str radix =
     (let s = dropWhile is_white_space str;
          negative = (take 1 s = ''-'');
          s1 = (if take 1 s = ''+'' \<or> take 1 s = ''-'' then drop 1 s else s);
          hex = ((radix = 0 \<or> radix = 16) \<and> (take 2 s1 = ''0x'' \<or> take 2 s1 = ''0X''));
          s2 = (if hex then drop 2 s1 else s1);
          r = (if hex then 16 else if radix = 0 then 10 else radix);
          z = takeWhile (\<lambda>c. digit_value c < r) s2
      in if radix \<noteq> 0 \<and> (radix < 2 \<or> 36 < radix) then NaN
         else if z = [] then NaN
         else Finite (of_int ((if negative then - 1 else 1)
                * int (foldl (\<lambda>acc c. acc * r + digit_value c) 0 z))))"

text \<open>
  \<open>parseInt\<close> of a destructured element: \<open>undefined\<close> is first converted to the string
  \<open>undefined\<close>.
\<close>

definition parseInt_element :: "string option \<Rightarrow> nat \<Rightarrow> number" where
  "parseInt_element e radix = parseInt (case e of None \<Rightarrow> ''undefined'' | Some str \<Rightarrow> str) radix"

text \<open>
  The object that \<open>parseTUID\<close> returns. Its fields \<open>machineId\<close> and \<open>sequence\<close> carry the
  prefix \<open>parsed_\<close> here, the generator having fields of the same names. A segment is
  \<open>None\<close> when the destructuring bound \<open>undefined\<close>.
\<close>

record parsed =
  timestamp :: number
  parsed_machineId :: number
  parsed_sequence :: number
  randomString1 :: "string option"
  randomString2 :: "string option"

definition parseTUID :: "string \<Rightarrow> parsed option" where
  "parseTUID tuid =
     (if \<not> isValidTUID tuid then None
      else
        (let parts = split tuid CHR ''-'';
             timestampStr = element parts 0;
             machineIdStr = element parts 1;
             sequenceStr = element parts 2
         in Some \<lparr>timestamp = parseInt_element timestampStr 10,
                  parsed_machineId = parseInt_element machineIdStr 10,
                  parsed_sequence = parseInt_element sequenceStr 10,
                  randomString1 = element parts 3,
                  randomString2 = element parts 4\<rparr>))"

subsection \<open>The order of generated identifiers\<close>

text \<open>
  The order of identifiers by timestamp and then by sequence, read off the instance as a call
  leaves it: \<open>generateV1\<close> prints exactly these two fields of the instance.
\<close>

definition earlier :: "generator \<Rightarrow> generator \<Rightarrow> bool" where
  "earlier g h =
     (lastTimestamp g < lastTimestamp h
      \<or> (lastTimestamp g = lastTimestamp h \<and> sequence g < sequence h))"

section \<open>The textual format, as the specification words it\<close>

definition decimal_digit :: "char \<Rightarrow> bool" where
  "decimal_digit c = (c \<in> set ''0123456789'')"

definition lower_alnum :: "char \<Rightarrow> bool" where
  "lower_alnum c = (c \<in> set ''abcdefghijklmnopqrstuvwxyz0123456789'')"

text \<open>
  13 decimal digits, a dash, 1 to 4 decimal digits, a dash, 1 to 4 decimal digits, a dash,
  exactly 4 lowercase-alphanumeric characters, a dash, exactly 4 lowercase-alphanumeric
  characters, and nothing before or after.
\<close>

definition v1_shape :: "string \<Rightarrow> bool" where
  "v1_shape s =
     (\<exists>ts mid sq r1 r2.
        s = ts @ ''-'' @ mid @ ''-'' @ sq @ ''-'' @ r1 @ ''-'' @ r2
        \<and> length ts = 13 \<and> list_all decimal_digit ts
        \<and> 1 \<le> length mid \<and> length mid \<le> 4 \<and> list_all decimal_digit mid
        \<and> 1 \<le> length sq \<and> length sq \<le> 4 \<and> list_all decimal_digit sq
        \<and> length r1 = 4 \<and> list_all lower_alnum r1
        \<and> length r2 = 4 \<and> list_all lower_alnum r2)"

text \<open>The number that a string of decimal digits denotes.\<close>

definition digit_of :: "char \<Rightarrow> nat" where
  "digit_of c = length (takeWhile (\<lambda>d. d \<noteq> c) ''0123456789'')"

definition decimal_value :: "string \<Rightarrow> nat" where
  "decimal_value ds = foldl (\<lambda>n c. 10 * n + digit_of c) 0 ds"

lemmas render_defs =
  tuid_string_def int_to_string_def number_to_string_def nat_to_string.simps
  toString36_def substring_def digit_chars_def

section \<open>Construction\<close>

text \<open>
  C3. Construction succeeds for every integer \<open>machineId\<close> in \<open>[0, 1023]\<close>, with
  \<open>sequence = 0\<close> and \<open>lastTimestamp = -1\<close> (the value that stands for "no identifier
  generated yet"); for every integer outside that range it throws the error and no
  instance is returned.
\<close>

theorem constructor_integer_range:
  "(0 \<le> m \<and> m \<le> 1023 \<longrightarrow>
      TUIDGenerator (Finite (of_int m))
        = Inr \<lparr>sequence = 0, lastTimestamp = - 1, machineId = Finite (of_int m)\<rparr>)
   \<and> (m < 0 \<or> 1023 < m \<longrightarrow>
      TUIDGenerator (Finite (of_int m)) = Inl (Error ''Machine ID must be between 0 and 1023.''))"
  by (auto simp: TUIDGenerator_def js_greater_def)

theorem constructor_integer_range_witness:
  "TUIDGenerator (Finite 0) = Inr \<lparr>sequence = 0, lastTimestamp = - 1, machineId = Finite 0\<rparr>
   \<and> TUIDGenerator (Finite 1023)
        = Inr \<lparr>sequence = 0, lastTimestamp = - 1, machineId = Finite 1023\<rparr>
   \<and> TUIDGenerator (Finite (- 1)) = Inl (Error ''Machine ID must be between 0 and 1023.'')
   \<and> TUIDGenerator (Finite 1024) = Inl (Error ''Machine ID must be between 0 and 1023.'')"
  using constructor_integer_range [of 0] constructor_integer_range [of 1023]
    constructor_integer_range [of "- 1"] constructor_integer_range [of 1024]
  by simp

text \<open>
  C10. The constructor tests only \<open>machineId < 0\<close> and \<open>machineId > 1023\<close>: it returns an
  instance exactly when neither comparison holds. So it accepts every non-integer value
  strictly between 0 and 1023, and it accepts \<open>NaN\<close>; nothing checks integrality.
\<close>

theorem constructor_no_integrality_check:
  "((\<exists>g. TUIDGenerator x = Inr g) = (\<not> js_less x (Finite 0) \<and> \<not> js_greater x (Finite 1023)))
   \<and> (0 < q \<and> q < 1023 \<and> of_int \<lfloor>q\<rfloor> \<noteq> q \<longrightarrow>
        TUIDGenerator (Finite q) = Inr \<lparr>sequence = 0, lastTimestamp = - 1, machineId = Finite q\<rparr>)
   \<and> TUIDGenerator NaN = Inr \<lparr>sequence = 0, lastTimestamp = - 1, machineId = NaN\<rparr>"
  by (auto simp: TUIDGenerator_def js_greater_def)

theorem constructor_no_integrality_check_witness:
  "TUIDGenerator (Finite (3 / 2))
     = Inr \<lparr>sequence = 0, lastTimestamp = - 1, machineId = Finite (3 / 2)\<rparr>
   \<and> of_int \<lfloor>3 / 2 :: rat\<rfloor> \<noteq> (3 / 2 :: rat)
   \<and> TUIDGenerator NaN = Inr \<lparr>sequence = 0, lastTimestamp = - 1, machineId = NaN\<rparr>"
proof -
  have nonint: "of_int \<lfloor>3 / 2 :: rat\<rfloor> \<noteq> (3 / 2 :: rat)"
    by code_simp
  show ?thesis
    using nonint constructor_no_integrality_check [of NaN "3 / 2"] by simp
qed

section \<open>The sequence counter\<close>

lemma js_band_4095: "js_band a 4095 = a mod 4096"
proof -
  have m: "a AND 4095 = a mod 4096"
    using take_bit_eq_mask [of 12 a] by (simp add: take_bit_eq_mod mask_eq_exp_minus_1)
  have "(word_of_int a :: 32 word) AND word_of_int 4095 = word_of_int (a AND 4095)"
    by (rule word_wi_log_defs(2))
  then have "js_band a 4095 = sint (word_of_int (a AND 4095) :: 32 word)"
    by (simp add: js_band_def)
  also have "\<dots> = signed_take_bit 31 (a AND 4095)"
    by (simp add: sint_sbintrunc')
  also have "\<dots> = a mod 4096"
    unfolding m by (rule signed_take_bit_int_eq_self) simp_all
  finally show ?thesis .
qed

lemma generateV1_sequence_range:
  assumes "generateV1 nonint g clock d1 d2 = Some (tuid, g', rest)"
  shows "0 \<le> sequence g' \<and> sequence g' \<le> 4095"
  using assms
  by (auto simp: generateV1_def emit_def Let_def js_band_4095
      split: list.splits if_splits option.splits)

text \<open>
  C4. When \<open>generateV1\<close> reads a clock value equal to \<open>lastTimestamp\<close>, the stored sequence
  becomes \<open>(sequence + 1) mod 4096\<close>: the code computes \<open>(sequence + 1) & 4095\<close>, which is the
  same number. Below 4095 the call returns at once with the sequence advanced by one. After
  any call that returns, the sequence lies in \<open>0..4095\<close>.
\<close>

theorem same_millisecond_sequence:
  "js_band (sequence g + 1) 4095 = (sequence g + 1) mod 4096
   \<and> (generateV1 nonint g (lastTimestamp g # rest) d1 d2 = Some (tuid, g', rest')
        \<longrightarrow> sequence g' = (sequence g + 1) mod 4096)
   \<and> (0 \<le> sequence g \<and> sequence g < 4095 \<longrightarrow>
        generateV1 nonint g (lastTimestamp g # rest) d1 d2
          = Some (emit nonint (g\<lparr>sequence := sequence g + 1\<rparr>) (lastTimestamp g) rest d1 d2))
   \<and> (generateV1 nonint g clock d1 d2 = Some (tuid2, g2, rest2)
        \<longrightarrow> 0 \<le> sequence g2 \<and> sequence g2 \<le> 4095)"
proof (intro conjI impI)
  show "js_band (sequence g + 1) 4095 = (sequence g + 1) mod 4096"
    by (rule js_band_4095)
next
  assume "generateV1 nonint g (lastTimestamp g # rest) d1 d2 = Some (tuid, g', rest')"
  then show "sequence g' = (sequence g + 1) mod 4096"
    by (auto simp: generateV1_def emit_def Let_def js_band_4095
        split: if_splits option.splits)
next
  assume "0 \<le> sequence g \<and> sequence g < 4095"
  then have "(sequence g + 1) mod 4096 = sequence g + 1" by simp
  then show "generateV1 nonint g (lastTimestamp g # rest) d1 d2
      = Some (emit nonint (g\<lparr>sequence := sequence g + 1\<rparr>) (lastTimestamp g) rest d1 d2)"
    using \<open>0 \<le> sequence g \<and> sequence g < 4095\<close>
    by (simp add: generateV1_def Let_def js_band_4095)
next
  assume "generateV1 nonint g clock d1 d2 = Some (tuid2, g2, rest2)"
  then show "0 \<le> sequence g2" "sequence g2 \<le> 4095"
    using generateV1_sequence_range by blast+
qed

theorem same_millisecond_sequence_witness:
  "generateV1 [] \<lparr>sequence = 4095, lastTimestamp = 1609459200000, machineId = Finite 1\<rparr>
      [1609459200000, 1609459200000, 1609459200001] [10, 11, 12, 13] [14, 15, 16, 17]
     = Some (''1609459200001-1-0-abcd-efgh'',
             \<lparr>sequence = 0, lastTimestamp = 1609459200001, machineId = Finite 1\<rparr>, [])
   \<and> (0::int) = (4095 + 1) mod 4096
   \<and> generateV1 [] \<lparr>sequence = 41, lastTimestamp = 1609459200000, machineId = Finite 1\<rparr>
      [1609459200000] [10, 11, 12, 13] [14, 15, 16, 17]
     = Some (''1609459200000-1-42-abcd-efgh'',
             \<lparr>sequence = 42, lastTimestamp = 1609459200000, machineId = Finite 1\<rparr>, [])"
proof -
  let ?g = "\<lparr>sequence = 4095, lastTimestamp = 1609459200000, machineId = Finite 1\<rparr>"
  let ?h = "\<lparr>sequence = 41, lastTimestamp = 1609459200000, machineId = Finite 1\<rparr>"
  have wrap: "generateV1 [] ?g [1609459200000, 1609459200000, 1609459200001]
      [10, 11, 12, 13] [14, 15, 16, 17]
     = Some (''1609459200001-1-0-abcd-efgh'',
             \<lparr>sequence = 0, lastTimestamp = 1609459200001, machineId = Finite 1\<rparr>, [])"
    by (simp add: generateV1_def emit_def js_band_def render_defs)
  have step: "emit [] (?h\<lparr>sequence := sequence ?h + 1\<rparr>) (lastTimestamp ?h) []
      [10, 11, 12, 13] [14, 15, 16, 17]
     = (''1609459200000-1-42-abcd-efgh'',
        \<lparr>sequence = 42, lastTimestamp = 1609459200000, machineId = Finite 1\<rparr>, [])"
    by (simp add: emit_def render_defs)
  show ?thesis
    using wrap step
      same_millisecond_sequence [of ?g "[]" "[1609459200000, 1609459200001]"
        "[10, 11, 12, 13]" "[14, 15, 16, 17]"]
      same_millisecond_sequence [of ?h "[]" "[]" "[10, 11, 12, 13]" "[14, 15, 16, 17]"]
    by simp
qed

text \<open>
  C5. When \<open>generateV1\<close> reads a clock value below \<open>lastTimestamp\<close>, it takes the branch
  of a new millisecond: the call returns, the sequence is 0 and \<open>lastTimestamp\<close> is the
  smaller value read. An instance whose \<open>lastTimestamp\<close> lies before the reading gives the
  very same result.
\<close>

theorem backward_clock_is_new_millisecond:
  "t < lastTimestamp g \<longrightarrow>
     generateV1 nonint g (t # rest) d1 d2
       = Some (tuid_string nonint t (machineId g) 0
                 (substring (toString36 d1) 2 6) (substring (toString36 d2) 2 6),
               g\<lparr>sequence := 0, lastTimestamp := t\<rparr>, rest)
     \<and> (lastTimestamp h < t \<and> machineId h = machineId g \<longrightarrow>
          generateV1 nonint h (t # rest) d1 d2 = generateV1 nonint g (t # rest) d1 d2)"
  by (auto simp: generateV1_def emit_def Let_def)

theorem backward_clock_is_new_millisecond_witness:
  "(1609459200000 :: int)
      < lastTimestamp \<lparr>sequence = 7, lastTimestamp = 1609459200005, machineId = Finite 1\<rparr>
   \<and> generateV1 [] \<lparr>sequence = 7, lastTimestamp = 1609459200005, machineId = Finite 1\<rparr>
        [1609459200000] [10, 11, 12, 13] [14, 15, 16, 17]
     = Some (''1609459200000-1-0-abcd-efgh'',
             \<lparr>sequence = 0, lastTimestamp = 1609459200000, machineId = Finite 1\<rparr>, [])"
proof -
  let ?g = "\<lparr>sequence = 7, lastTimestamp = 1609459200005, machineId = Finite 1\<rparr>"
  have rendered: "tuid_string [] 1609459200000 (machineId ?g) 0
      (substring (toString36 [10, 11, 12, 13]) 2 6) (substring (toString36 [14, 15, 16, 17]) 2 6)
     = ''1609459200000-1-0-abcd-efgh''"
    by (simp add: render_defs)
  show ?thesis
    using rendered
      backward_clock_is_new_millisecond [of 1609459200000 ?g "[]" "[]"
        "[10, 11, 12, 13]" "[14, 15, 16, 17]"]
    by simp
qed

section \<open>The pattern and the format\<close>

lemma in_class_Digit_iff: "in_class Digit c = decimal_digit c"
proof -
  have "decimal_digit c \<longleftrightarrow> (of_char c :: nat) \<in> of_char ` set ''0123456789''"
    unfolding decimal_digit_def by (simp only: inj_image_mem_iff [OF inj_of_char])
  also have "\<dots> \<longleftrightarrow> 48 \<le> (of_char c :: nat) \<and> (of_char c :: nat) \<le> 57"
    by (simp) arith
  finally show ?thesis by simp
qed

lemma in_class_Ranges_iff:
  "in_class (Ranges [(CHR ''a'', CHR ''z''), (CHR ''0'', CHR ''9'')]) c = lower_alnum c"
proof -
  have "lower_alnum c \<longleftrightarrow>
      (of_char c :: nat) \<in> of_char ` set ''abcdefghijklmnopqrstuvwxyz0123456789''"
    unfolding lower_alnum_def by (simp only: inj_image_mem_iff [OF inj_of_char])
  also have "\<dots> \<longleftrightarrow> (97 \<le> (of_char c :: nat) \<and> (of_char c :: nat) \<le> 122)
      \<or> (48 \<le> (of_char c :: nat) \<and> (of_char c :: nat) \<le> 57)"
    by (simp) arith
  finally show ?thesis by simp
qed

lemma match_here_piece:
  "lo \<le> hi \<Longrightarrow> match_here ((c, lo, hi) # ps) s
     = (\<exists>u v. s = u @ v \<and> lo \<le> length u \<and> length u \<le> hi \<and> list_all (in_class c) u
          \<and> match_here ps v)"
proof (induction hi arbitrary: lo s)
  case 0
  then show ?case by (simp add: match_here.simps(2))
next
  case (Suc hi)
  show ?case
  proof (cases "0 < lo")
    case True
    then obtain lo' where lo: "lo = Suc lo'" by (cases lo) auto
    with Suc.prems have le: "lo' \<le> hi" by simp
    show ?thesis
    proof (cases s)
      case Nil
      then show ?thesis using lo by (simp add: match_here.simps(2))
    next
      case (Cons x xs)
      have "match_here ((c, lo, Suc hi) # ps) s
          = (in_class c x \<and> match_here ((c, lo', hi) # ps) xs)"
        using lo Cons by (simp add: match_here.simps(2))
      also have "\<dots> = (in_class c x \<and> (\<exists>u v. xs = u @ v \<and> lo' \<le> length u \<and> length u \<le> hi
          \<and> list_all (in_class c) u \<and> match_here ps v))"
        using Suc.IH [OF le] by simp
      also have "\<dots> = (\<exists>u v. s = u @ v \<and> lo \<le> length u \<and> length u \<le> Suc hi
          \<and> list_all (in_class c) u \<and> match_here ps v)"
      proof
        assume "in_class c x \<and> (\<exists>u v. xs = u @ v \<and> lo' \<le> length u \<and> length u \<le> hi
          \<and> list_all (in_class c) u \<and> match_here ps v)"
        then obtain u v where "in_class c x" "xs = u @ v" "lo' \<le> length u" "length u \<le> hi"
          "list_all (in_class c) u" "match_here ps v" by blast
        then have "s = (x # u) @ v \<and> lo \<le> length (x # u) \<and> length (x # u) \<le> Suc hi
          \<and> list_all (in_class c) (x # u) \<and> match_here ps v"
          using Cons lo by simp
        then show "\<exists>u v. s = u @ v \<and> lo \<le> length u \<and> length u \<le> Suc hi
          \<and> list_all (in_class c) u \<and> match_here ps v" by blast
      next
        assume "\<exists>u v. s = u @ v \<and> lo \<le> length u \<and> length u \<le> Suc hi
          \<and> list_all (in_class c) u \<and> match_here ps v"
        then obtain u v where uv: "s = u @ v" "lo \<le> length u" "length u \<le> Suc hi"
          "list_all (in_class c) u" "match_here ps v" by blast
        from uv(2) lo obtain u' where u: "u = x # u'"
          using Cons uv(1) by (cases u) auto
        with uv Cons lo show "in_class c x \<and> (\<exists>u v. xs = u @ v \<and> lo' \<le> length u
          \<and> length u \<le> hi \<and> list_all (in_class c) u \<and> match_here ps v)"
          by auto
      qed
      finally show ?thesis .
    qed
  next
    case False
    then have lo: "lo = 0" by simp
    have rest: "match_here ((c, 0, hi) # ps) xs
        = (\<exists>u v. xs = u @ v \<and> length u \<le> hi \<and> list_all (in_class c) u \<and> match_here ps v)"
      for xs using Suc.IH [of 0 xs] by simp
    show ?thesis
    proof (cases s)
      case Nil
      then show ?thesis using lo by (simp add: match_here.simps(2))
    next
      case (Cons x xs)
      have "match_here ((c, lo, Suc hi) # ps) s
          = ((in_class c x \<and> match_here ((c, 0, hi) # ps) xs) \<or> match_here ps s)"
        using lo Cons by (simp add: match_here.simps(2))
      also have "\<dots> = ((in_class c x \<and> (\<exists>u v. xs = u @ v \<and> length u \<le> hi
          \<and> list_all (in_class c) u \<and> match_here ps v)) \<or> match_here ps s)"
        by (simp only: rest)
      also have "\<dots> = (\<exists>u v. s = u @ v \<and> lo \<le> length u \<and> length u \<le> Suc hi
          \<and> list_all (in_class c) u \<and> match_here ps v)"
      proof
        assume "(in_class c x \<and> (\<exists>u v. xs = u @ v \<and> length u \<le> hi
          \<and> list_all (in_class c) u \<and> match_here ps v)) \<or> match_here ps s"
        then show "\<exists>u v. s = u @ v \<and> lo \<le> length u \<and> length u \<le> Suc hi
          \<and> list_all (in_class c) u \<and> match_here ps v"
        proof
          assume "in_class c x \<and> (\<exists>u v. xs = u @ v \<and> length u \<le> hi
            \<and> list_all (in_class c) u \<and> match_here ps v)"
          then obtain u v where "in_class c x" "xs = u @ v" "length u \<le> hi"
            "list_all (in_class c) u" "match_here ps v" by blast
          then have "s = (x # u) @ v \<and> lo \<le> length (x # u) \<and> length (x # u) \<le> Suc hi
            \<and> list_all (in_class c) (x # u) \<and> match_here ps v"
            using Cons lo by simp
          then show ?thesis by blast
        next
          assume "match_here ps s"
          then have "s = [] @ s \<and> lo \<le> length ([] :: string) \<and> length ([] :: string) \<le> Suc hi
            \<and> list_all (in_class c) [] \<and> match_here ps s"
            using lo by simp
          then show ?thesis by blast
        qed
      next
        assume "\<exists>u v. s = u @ v \<and> lo \<le> length u \<and> length u \<le> Suc hi
          \<and> list_all (in_class c) u \<and> match_here ps v"
        then obtain u v where uv: "s = u @ v" "length u \<le> Suc hi"
          "list_all (in_class c) u" "match_here ps v" by blast
        show "(in_class c x \<and> (\<exists>u v. xs = u @ v \<and> length u \<le> hi
          \<and> list_all (in_class c) u \<and> match_here ps v)) \<or> match_here ps s"
        proof (cases u)
          case Nil
          with uv show ?thesis by simp
        next
          case (Cons y u')
          with uv \<open>s = x # xs\<close> have "in_class c x \<and> xs = u' @ v \<and> length u' \<le> hi
            \<and> list_all (in_class c) u' \<and> match_here ps v" by auto
          then show ?thesis by blast
        qed
      qed
      finally show ?thesis .
    qed
  qed
qed

lemma match_here_literal:
  "match_here ((Literal l, 1, 1) # ps) s = (\<exists>v. s = l # v \<and> match_here ps v)"
  by (cases s) (simp_all add: match_here.simps(2))

lemma match_here_dash: "match_here ps v \<Longrightarrow> match_here ((Literal l, 1, 1) # ps) (l # v)"
  unfolding match_here_literal by blast

lemma match_here_append:
  assumes "lo \<le> length u" "length u \<le> hi" "list_all (in_class c) u" "match_here ps v"
  shows "match_here ((c, lo, hi) # ps) (u @ v)"
proof -
  from assms have "lo \<le> hi" by simp
  from match_here_piece [OF this, of c ps "u @ v"] assms show ?thesis by blast
qed

lemma match_here_split:
  assumes "match_here ((c, lo, hi) # ps) s" "lo \<le> hi"
  obtains u v where "s = u @ v" "lo \<le> length u" "length u \<le> hi" "list_all (in_class c) u"
    "match_here ps v"
  using assms match_here_piece [of lo hi c ps s] by blast

lemma isValidTUID_iff_v1_shape: "isValidTUID s = v1_shape s"
proof
  let ?D = "Digit" and ?L = "Literal CHR ''-''"
    and ?R = "Ranges [(CHR ''a'', CHR ''z''), (CHR ''0'', CHR ''9'')]"
  assume "isValidTUID s"
  then have "match_here [(?D, 13, 13), (?L, 1, 1), (?D, 1, 4), (?L, 1, 1), (?D, 1, 4), (?L, 1, 1),
      (?R, 4, 4), (?L, 1, 1), (?R, 4, 4)] s"
    by (simp add: isValidTUID_def test_def v1Pattern_def)
  then obtain ts v1 where ts: "s = ts @ v1" "13 \<le> length ts" "length ts \<le> 13"
      "list_all (in_class ?D) ts"
    and m1: "match_here [(?L, 1, 1), (?D, 1, 4), (?L, 1, 1), (?D, 1, 4), (?L, 1, 1),
      (?R, 4, 4), (?L, 1, 1), (?R, 4, 4)] v1"
    by (rule match_here_split) simp
  from m1 obtain v2 where v1: "v1 = CHR ''-'' # v2"
    and m2: "match_here [(?D, 1, 4), (?L, 1, 1), (?D, 1, 4), (?L, 1, 1),
      (?R, 4, 4), (?L, 1, 1), (?R, 4, 4)] v2"
    unfolding match_here_literal by blast
  from m2 obtain mid v3 where mid: "v2 = mid @ v3" "1 \<le> length mid" "length mid \<le> 4"
      "list_all (in_class ?D) mid"
    and m3: "match_here [(?L, 1, 1), (?D, 1, 4), (?L, 1, 1), (?R, 4, 4), (?L, 1, 1), (?R, 4, 4)] v3"
    by (rule match_here_split) simp
  from m3 obtain v4 where v3: "v3 = CHR ''-'' # v4"
    and m4: "match_here [(?D, 1, 4), (?L, 1, 1), (?R, 4, 4), (?L, 1, 1), (?R, 4, 4)] v4"
    unfolding match_here_literal by blast
  from m4 obtain sq v5 where sq: "v4 = sq @ v5" "1 \<le> length sq" "length sq \<le> 4"
      "list_all (in_class ?D) sq"
    and m5: "match_here [(?L, 1, 1), (?R, 4, 4), (?L, 1, 1), (?R, 4, 4)] v5"
    by (rule match_here_split) simp
  from m5 obtain v6 where v5: "v5 = CHR ''-'' # v6"
    and m6: "match_here [(?R, 4, 4), (?L, 1, 1), (?R, 4, 4)] v6"
    unfolding match_here_literal by blast
  from m6 obtain r1 v7 where r1: "v6 = r1 @ v7" "4 \<le> length r1" "length r1 \<le> 4"
      "list_all (in_class ?R) r1"
    and m7: "match_here [(?L, 1, 1), (?R, 4, 4)] v7"
    by (rule match_here_split) simp
  from m7 obtain v8 where v7: "v7 = CHR ''-'' # v8"
    and m8: "match_here [(?R, 4, 4)] v8"
    unfolding match_here_literal by blast
  from m8 obtain r2 v9 where r2: "v8 = r2 @ v9" "4 \<le> length r2" "length r2 \<le> 4"
      "list_all (in_class ?R) r2"
    and m9: "match_here [] v9"
    by (rule match_here_split) simp
  from m9 have v9: "v9 = []" by simp
  have "s = ts @ ''-'' @ mid @ ''-'' @ sq @ ''-'' @ r1 @ ''-'' @ r2"
    using ts(1) v1 mid(1) v3 sq(1) v5 r1(1) v7 r2(1) v9 by simp
  moreover have "list_all decimal_digit ts" "list_all decimal_digit mid" "list_all decimal_digit sq"
    using ts(4) mid(4) sq(4) by (simp_all add: in_class_Digit_iff [abs_def])
  moreover have "list_all lower_alnum r1" "list_all lower_alnum r2"
    using r1(4) r2(4) by (simp_all add: in_class_Ranges_iff [abs_def])
  moreover have "length ts = 13" "length r1 = 4" "length r2 = 4"
    using ts(2,3) r1(2,3) r2(2,3) by simp_all
  ultimately show "v1_shape s"
    unfolding v1_shape_def using mid(2,3) sq(2,3) by blast
next
  let ?D = "Digit" and ?L = "Literal CHR ''-''"
    and ?R = "Ranges [(CHR ''a'', CHR ''z''), (CHR ''0'', CHR ''9'')]"
  assume "v1_shape s"
  then obtain ts mid sq r1 r2 where
    s: "s = ts @ ''-'' @ mid @ ''-'' @ sq @ ''-'' @ r1 @ ''-'' @ r2"
    and ts: "length ts = 13" "list_all decimal_digit ts"
    and mid: "1 \<le> length mid" "length mid \<le> 4" "list_all decimal_digit mid"
    and sq: "1 \<le> length sq" "length sq \<le> 4" "list_all decimal_digit sq"
    and r1: "length r1 = 4" "list_all lower_alnum r1"
    and r2: "length r2 = 4" "list_all lower_alnum r2"
    unfolding v1_shape_def by blast
  have D: "list_all (in_class ?D) ts" "list_all (in_class ?D) mid" "list_all (in_class ?D) sq"
    using ts mid sq by (simp_all add: in_class_Digit_iff [abs_def])
  have R: "list_all (in_class ?R) r1" "list_all (in_class ?R) r2"
    using r1 r2 by (simp_all add: in_class_Ranges_iff [abs_def])
  have "match_here [(?R, 4, 4)] r2"
    using match_here_append [of 4 r2 4 ?R "[]" "[]"] r2 R by simp
  then have "match_here [(?L, 1, 1), (?R, 4, 4)] (CHR ''-'' # r2)"
    by (rule match_here_dash)
  then have "match_here [(?R, 4, 4), (?L, 1, 1), (?R, 4, 4)] (r1 @ CHR ''-'' # r2)"
    by (rule match_here_append [rotated 3]) (use r1 R in simp_all)
  then have "match_here [(?L, 1, 1), (?R, 4, 4), (?L, 1, 1), (?R, 4, 4)]
      (CHR ''-'' # r1 @ CHR ''-'' # r2)"
    by (rule match_here_dash)
  then have "match_here [(?D, 1, 4), (?L, 1, 1), (?R, 4, 4), (?L, 1, 1), (?R, 4, 4)]
      (sq @ CHR ''-'' # r1 @ CHR ''-'' # r2)"
    by (rule match_here_append [rotated 3]) (use sq D in simp_all)
  then have "match_here [(?L, 1, 1), (?D, 1, 4), (?L, 1, 1), (?R, 4, 4), (?L, 1, 1), (?R, 4, 4)]
      (CHR ''-'' # sq @ CHR ''-'' # r1 @ CHR ''-'' # r2)"
    by (rule match_here_dash)
  then have "match_here [(?D, 1, 4), (?L, 1, 1), (?D, 1, 4), (?L, 1, 1), (?R, 4, 4), (?L, 1, 1),
      (?R, 4, 4)] (mid @ CHR ''-'' # sq @ CHR ''-'' # r1 @ CHR ''-'' # r2)"
    by (rule match_here_append [rotated 3]) (use mid D in simp_all)
  then have "match_here [(?L, 1, 1), (?D, 1, 4), (?L, 1, 1), (?D, 1, 4), (?L, 1, 1), (?R, 4, 4),
      (?L, 1, 1), (?R, 4, 4)] (CHR ''-'' # mid @ CHR ''-'' # sq @ CHR ''-'' # r1 @ CHR ''-'' # r2)"
    by (rule match_here_dash)
  then have "match_here [(?D, 13, 13), (?L, 1, 1), (?D, 1, 4), (?L, 1, 1), (?D, 1, 4), (?L, 1, 1),
      (?R, 4, 4), (?L, 1, 1), (?R, 4, 4)]
      (ts @ CHR ''-'' # mid @ CHR ''-'' # sq @ CHR ''-'' # r1 @ CHR ''-'' # r2)"
    by (rule match_here_append [rotated 3]) (use ts D in simp_all)
  then show "isValidTUID s"
    using s by (simp add: isValidTUID_def test_def v1Pattern_def)
qed

subsection \<open>Fields and their decimal values\<close>

lemma decimal_digit_not_dash: "list_all decimal_digit u \<Longrightarrow> CHR ''-'' \<notin> set u"
proof -
  have "\<not> decimal_digit CHR ''-''" by (simp add: decimal_digit_def)
  then show "list_all decimal_digit u \<Longrightarrow> CHR ''-'' \<notin> set u"
    unfolding list_all_iff by blast
qed

lemma lower_alnum_not_dash: "list_all lower_alnum u \<Longrightarrow> CHR ''-'' \<notin> set u"
proof -
  have "\<not> lower_alnum CHR ''-''" by (simp add: lower_alnum_def)
  then show "list_all lower_alnum u \<Longrightarrow> CHR ''-'' \<notin> set u"
    unfolding list_all_iff by blast
qed

lemma split_no_separator: "sep \<notin> set u \<Longrightarrow> split u sep = [u]"
  by (induction u) auto

lemma split_append: "sep \<notin> set u \<Longrightarrow> split (u @ sep # v) sep = u # split v sep"
  by (induction u) auto

lemma split_five_fields:
  assumes "CHR ''-'' \<notin> set a" "CHR ''-'' \<notin> set b" "CHR ''-'' \<notin> set c"
    "CHR ''-'' \<notin> set d" "CHR ''-'' \<notin> set e"
  shows "split (a @ ''-'' @ b @ ''-'' @ c @ ''-'' @ d @ ''-'' @ e) CHR ''-'' = [a, b, c, d, e]"
  using assms by (simp add: split_append split_no_separator)

lemma decimal_digit_cases:
  assumes "decimal_digit c"
  obtains "c = CHR ''0''" | "c = CHR ''1''" | "c = CHR ''2''" | "c = CHR ''3''" | "c = CHR ''4''"
    | "c = CHR ''5''" | "c = CHR ''6''" | "c = CHR ''7''" | "c = CHR ''8''" | "c = CHR ''9''"
proof -
  from assms have "c = CHR ''0'' \<or> c = CHR ''1'' \<or> c = CHR ''2'' \<or> c = CHR ''3'' \<or> c = CHR ''4''
    \<or> c = CHR ''5'' \<or> c = CHR ''6'' \<or> c = CHR ''7'' \<or> c = CHR ''8'' \<or> c = CHR ''9''"
    by (simp add: decimal_digit_def)
  then show thesis using that by blast
qed

lemma digit_value_decimal: "decimal_digit c \<Longrightarrow> digit_value c = digit_of c \<and> digit_of c < 10"
  by (erule decimal_digit_cases) (simp_all add: digit_value_def digit_of_def)

lemma decimal_digit_not_space: "decimal_digit c \<Longrightarrow> \<not> is_white_space c"
  by (erule decimal_digit_cases) (simp_all add: is_white_space_def)

lemma foldl_digits:
  "list_all decimal_digit ds \<Longrightarrow>
     foldl (\<lambda>acc c. acc * 10 + digit_value c) n ds = foldl (\<lambda>n c. 10 * n + digit_of c) n ds"
  by (induction ds arbitrary: n) (simp_all add: digit_value_decimal mult.commute)

lemma takeWhile_digits:
  "list_all decimal_digit ds \<Longrightarrow> takeWhile (\<lambda>c. digit_value c < 10) ds = ds"
  by (induction ds) (simp_all add: digit_value_decimal)

lemma parseInt_decimal:
  assumes "list_all decimal_digit ds" "ds \<noteq> []"
  shows "parseInt ds 10 = Finite (of_nat (decimal_value ds))"
proof -
  from assms obtain c cs where ds: "ds = c # cs" and c: "decimal_digit c"
    by (cases ds) auto
  have "dropWhile is_white_space ds = ds"
    using ds c by (simp add: decimal_digit_not_space)
  moreover have "take 1 ds \<noteq> ''-''" "take 1 ds \<noteq> ''+''"
    using c unfolding ds by (erule_tac [!] decimal_digit_cases) simp_all
  ultimately show ?thesis
    using assms
    by (simp add: parseInt_def Let_def takeWhile_digits foldl_digits decimal_value_def)
qed

section \<open>Validation\<close>

lemmas valid_defs = isValidTUID_def test_def v1Pattern_def match_here.simps(2)

lemmas parse_defs =
  parseTUID_def element_def parseInt_element_def parseInt_def is_white_space_def digit_value_def

lemma decimal_digit_lower_alnum: "decimal_digit c \<Longrightarrow> lower_alnum c"
  by (erule decimal_digit_cases) (simp_all add: lower_alnum_def)

lemma v1_shape_split:
  assumes "v1_shape s"
  obtains ts mid sq r1 r2 where
    "s = ts @ ''-'' @ mid @ ''-'' @ sq @ ''-'' @ r1 @ ''-'' @ r2"
    "split s CHR ''-'' = [ts, mid, sq, r1, r2]"
    "length ts = 13" "list_all decimal_digit ts"
    "1 \<le> length mid" "length mid \<le> 4" "list_all decimal_digit mid"
    "1 \<le> length sq" "length sq \<le> 4" "list_all decimal_digit sq"
    "length r1 = 4" "list_all lower_alnum r1" "length r2 = 4" "list_all lower_alnum r2"
proof -
  from assms obtain ts mid sq r1 r2 where
    s: "s = ts @ ''-'' @ mid @ ''-'' @ sq @ ''-'' @ r1 @ ''-'' @ r2"
    and ts: "length ts = 13" "list_all decimal_digit ts"
    and mid: "1 \<le> length mid" "length mid \<le> 4" "list_all decimal_digit mid"
    and sq: "1 \<le> length sq" "length sq \<le> 4" "list_all decimal_digit sq"
    and r1: "length r1 = 4" "list_all lower_alnum r1"
    and r2: "length r2 = 4" "list_all lower_alnum r2"
    unfolding v1_shape_def by blast
  have sp: "split s CHR ''-'' = [ts, mid, sq, r1, r2]"
    unfolding s
    by (rule split_five_fields)
      (use ts mid sq r1 r2 in \<open>simp_all add: decimal_digit_not_dash lower_alnum_not_dash\<close>)
  show thesis
    by (rule that [OF s sp ts mid sq r1 r2])
qed

lemma parseTUID_valid:
  assumes "s = ts @ ''-'' @ mid @ ''-'' @ sq @ ''-'' @ r1 @ ''-'' @ r2"
    "split s CHR ''-'' = [ts, mid, sq, r1, r2]" "isValidTUID s"
    "list_all decimal_digit ts" "ts \<noteq> []" "list_all decimal_digit mid" "mid \<noteq> []"
    "list_all decimal_digit sq" "sq \<noteq> []"
  shows "parseTUID s = Some \<lparr>timestamp = Finite (of_nat (decimal_value ts)),
      parsed_machineId = Finite (of_nat (decimal_value mid)),
      parsed_sequence = Finite (of_nat (decimal_value sq)),
      randomString1 = Some r1, randomString2 = Some r2\<rparr>"
  using assms(2-) by (simp add: parseTUID_def element_def parseInt_element_def parseInt_decimal)

lemma valid_positions:
  assumes "isValidTUID s"
  shows "s ! 13 = CHR ''-''" "decimal_digit (s ! 12)" "27 \<le> length s" "length s \<le> 33"
    "s ! (length s - 5) = CHR ''-''" "lower_alnum (s ! (length s - 4))"
proof -
  from assms have "v1_shape s" by (simp add: isValidTUID_iff_v1_shape)
  then obtain ts mid sq r1 r2 where
    s: "s = ts @ ''-'' @ mid @ ''-'' @ sq @ ''-'' @ r1 @ ''-'' @ r2"
    and ts: "length ts = 13" "list_all decimal_digit ts"
    and mid: "1 \<le> length mid" "length mid \<le> 4"
    and sq: "1 \<le> length sq" "length sq \<le> 4"
    and r1: "length r1 = 4"
    and r2: "length r2 = 4" "list_all lower_alnum r2"
    by (rule v1_shape_split)
  show "s ! 13 = CHR ''-''" unfolding s using ts(1) by (simp add: nth_append)
  have "s ! 12 = ts ! 12" unfolding s using ts(1) by (simp add: nth_append)
  then show "decimal_digit (s ! 12)" using ts by (simp add: list_all_length)
  show "27 \<le> length s" "length s \<le> 33" unfolding s using ts mid sq r1 r2 by simp_all
  define pre where "pre = ts @ ''-'' @ mid @ ''-'' @ sq @ ''-'' @ r1"
  have s': "s = pre @ CHR ''-'' # r2" unfolding s pre_def by simp
  have len: "length s = length pre + 5" unfolding s' using r2 by simp
  show "s ! (length s - 5) = CHR ''-''" unfolding len by (simp add: s')
  have "s ! (length s - 4) = r2 ! 0" unfolding len by (simp add: s' nth_append)
  then show "lower_alnum (s ! (length s - 4))" using r2 by (simp add: list_all_length)
qed

lemma not_dash: "\<not> decimal_digit CHR ''-''" "\<not> lower_alnum CHR ''-''"
  by (simp_all add: decimal_digit_def lower_alnum_def)

text \<open>
  C6. \<open>isValidTUID\<close> is true exactly for the strings made of 13 decimal digits, a dash, 1 to
  4 decimal digits, a dash, 1 to 4 decimal digits, a dash, 4 lowercase-alphanumeric
  characters, a dash and 4 lowercase-alphanumeric characters, with nothing around them. A
  valid string therefore has five dash-separated fields and no character outside the
  lowercase alphanumerics and the dash, and it stops being valid when a character is put
  before or after it.
\<close>

theorem isValidTUID_exact_format:
  "isValidTUID s = v1_shape s
   \<and> (isValidTUID s \<longrightarrow>
        length (split s CHR ''-'') = 5
        \<and> list_all (\<lambda>c. lower_alnum c \<or> c = CHR ''-'') s
        \<and> \<not> isValidTUID (c # s) \<and> \<not> isValidTUID (s @ [c]))"
proof (intro conjI impI)
  show "isValidTUID s = v1_shape s" by (rule isValidTUID_iff_v1_shape)
next
  assume v: "isValidTUID s"
  then have "v1_shape s" by (simp add: isValidTUID_iff_v1_shape)
  then obtain ts mid sq r1 r2 where
    s: "s = ts @ ''-'' @ mid @ ''-'' @ sq @ ''-'' @ r1 @ ''-'' @ r2"
    and sp: "split s CHR ''-'' = [ts, mid, sq, r1, r2]"
    and parts: "list_all decimal_digit ts" "list_all decimal_digit mid" "list_all decimal_digit sq"
      "list_all lower_alnum r1" "list_all lower_alnum r2"
    by (rule v1_shape_split)
  show "length (split s CHR ''-'') = 5" by (simp add: sp)
  have "list_all lower_alnum ts" "list_all lower_alnum mid" "list_all lower_alnum sq"
    using parts(1-3) by (auto simp: list_all_iff decimal_digit_lower_alnum)
  then show "list_all (\<lambda>c. lower_alnum c \<or> c = CHR ''-'') s"
    unfolding s using parts(4,5) by (auto simp: list_all_iff)
  show "\<not> isValidTUID (c # s)"
  proof
    assume "isValidTUID (c # s)"
    then have "(c # s) ! 13 = CHR ''-''" by (rule valid_positions(1))
    then have "s ! 12 = CHR ''-''" by simp
    with valid_positions(2) [OF v] not_dash(1) show False by simp
  qed
  show "\<not> isValidTUID (s @ [c])"
  proof
    assume "isValidTUID (s @ [c])"
    then have "(s @ [c]) ! (length (s @ [c]) - 5) = CHR ''-''" by (rule valid_positions(5))
    moreover have "27 \<le> length s" using v by (rule valid_positions(3))
    then have "length s - 4 < length s" by arith
    ultimately have "s ! (length s - 4) = CHR ''-''" by (simp add: nth_append)
    with valid_positions(6) [OF v] not_dash(2) show False by simp
  qed
qed

theorem isValidTUID_exact_format_witness:
  "isValidTUID ''1609459200000-1-0-abcd-efgh''
   \<and> v1_shape ''1609459200000-1-0-abcd-efgh''
   \<and> length (split ''1609459200000-1-0-abcd-efgh'' CHR ''-'') = 5
   \<and> \<not> isValidTUID (CHR '' '' # ''1609459200000-1-0-abcd-efgh'')
   \<and> \<not> isValidTUID (''1609459200000-1-0-abcd-efgh'' @ ''x'')
   \<and> \<not> v1_shape ''1609459200000-1-0-ABCD-efgh''
   \<and> \<not> v1_shape ''1609459200000-1-abcd-efgh''
   \<and> \<not> v1_shape ''160945920000-1-0-abcd-efgh''
   \<and> \<not> v1_shape ''1609459200000-10000-0-abcd-efgh''
   \<and> \<not> v1_shape ''invalid-tuid''"
proof -
  have v: "isValidTUID ''1609459200000-1-0-abcd-efgh''"
    by (simp add: valid_defs)
  have n: "\<not> isValidTUID ''1609459200000-1-0-ABCD-efgh''"
    "\<not> isValidTUID ''1609459200000-1-abcd-efgh''"
    "\<not> isValidTUID ''160945920000-1-0-abcd-efgh''"
    "\<not> isValidTUID ''1609459200000-10000-0-abcd-efgh''"
    "\<not> isValidTUID ''invalid-tuid''"
    by (simp_all add: valid_defs)
  show ?thesis
    using v n
      isValidTUID_exact_format [of "''1609459200000-1-0-abcd-efgh''" "CHR '' ''"]
      isValidTUID_exact_format [of "''1609459200000-1-0-abcd-efgh''" "CHR ''x''"]
      isValidTUID_exact_format [of "''1609459200000-1-0-ABCD-efgh''"]
      isValidTUID_exact_format [of "''1609459200000-1-abcd-efgh''"]
      isValidTUID_exact_format [of "''160945920000-1-0-abcd-efgh''"]
      isValidTUID_exact_format [of "''1609459200000-10000-0-abcd-efgh''"]
      isValidTUID_exact_format [of "''invalid-tuid''"]
    by simp
qed

text \<open>
  C7. \<open>isValidTUID\<close> does not enforce the ranges \<open>machineId \<le> 1023\<close> and
  \<open>sequence \<le> 4095\<close>: the string with the fields 9999 and 9999 is valid and parses to
  these values, although both exceed their range and the constructor refuses 9999.
\<close>

theorem isValidTUID_ignores_ranges:
  "isValidTUID ''1609459200000-9999-9999-abcd-efgh''
   \<and> parseTUID ''1609459200000-9999-9999-abcd-efgh''
       = Some \<lparr>timestamp = Finite 1609459200000, parsed_machineId = Finite 9999,
           parsed_sequence = Finite 9999, randomString1 = Some ''abcd'',
           randomString2 = Some ''efgh''\<rparr>
   \<and> js_greater (Finite 9999) (Finite 1023) \<and> js_greater (Finite 9999) (Finite 4095)
   \<and> TUIDGenerator (Finite 9999) = Inl (Error ''Machine ID must be between 0 and 1023.'')"
proof -
  have "isValidTUID ''1609459200000-9999-9999-abcd-efgh''"
    by (simp add: valid_defs)
  then show ?thesis
    by (simp add: parse_defs js_greater_def TUIDGenerator_def)
qed

text \<open>
  C8. \<open>getTUIDVersion\<close> returns \<open>v1\<close> exactly when \<open>isValidTUID\<close> is true and \<open>unknown\<close>
  exactly when it is false; it has no other result.
\<close>

theorem getTUIDVersion_results:
  "(getTUIDVersion s = ''v1'') = isValidTUID s
   \<and> (getTUIDVersion s = ''unknown'') = (\<not> isValidTUID s)
   \<and> (getTUIDVersion s = ''v1'' \<or> getTUIDVersion s = ''unknown'')"
  by (simp add: getTUIDVersion_def)

theorem getTUIDVersion_results_witness:
  "getTUIDVersion ''1609459200000-1-0-abcd-efgh'' = ''v1''
   \<and> getTUIDVersion ''invalid-tuid'' = ''unknown''"
proof -
  have "isValidTUID ''1609459200000-1-0-abcd-efgh''" "\<not> isValidTUID ''invalid-tuid''"
    by (simp_all add: valid_defs)
  then show ?thesis
    using getTUIDVersion_results [of "''1609459200000-1-0-abcd-efgh''"]
      getTUIDVersion_results [of "''invalid-tuid''"]
    by simp
qed

text \<open>
  C9. \<open>parseTUID\<close> returns \<open>null\<close> exactly when \<open>isValidTUID\<close> is false. On a valid string
  it returns the five dash-separated fields: the first three as the numbers their digits
  denote, whatever their size, the last two as they stand. In particular
  \<open>1609459200000-1-0-abcd-efgh\<close> gives 1609459200000, 1, 0, \<open>abcd\<close> and \<open>efgh\<close>.
\<close>

theorem parseTUID_fields:
  "(parseTUID s = None) = (\<not> isValidTUID s)
   \<and> (isValidTUID s \<longrightarrow>
        (\<exists>ts mid sq r1 r2.
           s = ts @ ''-'' @ mid @ ''-'' @ sq @ ''-'' @ r1 @ ''-'' @ r2
           \<and> split s CHR ''-'' = [ts, mid, sq, r1, r2]
           \<and> parseTUID s
               = Some \<lparr>timestamp = Finite (of_nat (decimal_value ts)),
                   parsed_machineId = Finite (of_nat (decimal_value mid)),
                   parsed_sequence = Finite (of_nat (decimal_value sq)),
                   randomString1 = Some r1, randomString2 = Some r2\<rparr>))
   \<and> parseTUID ''1609459200000-1-0-abcd-efgh''
       = Some \<lparr>timestamp = Finite 1609459200000, parsed_machineId = Finite 1,
           parsed_sequence = Finite 0, randomString1 = Some ''abcd'',
           randomString2 = Some ''efgh''\<rparr>"
proof (intro conjI impI)
  show "(parseTUID s = None) = (\<not> isValidTUID s)"
    by (simp add: parseTUID_def Let_def)
next
  assume v: "isValidTUID s"
  then have "v1_shape s" by (simp add: isValidTUID_iff_v1_shape)
  then obtain ts mid sq r1 r2 where
    s: "s = ts @ ''-'' @ mid @ ''-'' @ sq @ ''-'' @ r1 @ ''-'' @ r2"
    and sp: "split s CHR ''-'' = [ts, mid, sq, r1, r2]"
    and ts: "length ts = 13" "list_all decimal_digit ts"
    and mid: "1 \<le> length mid" "length mid \<le> 4" "list_all decimal_digit mid"
    and sq: "1 \<le> length sq" "length sq \<le> 4" "list_all decimal_digit sq"
    by (rule v1_shape_split)
  have ne: "ts \<noteq> []" "mid \<noteq> []" "sq \<noteq> []"
    using ts(1) mid(1) sq(1) by auto
  have "parseTUID s = Some \<lparr>timestamp = Finite (of_nat (decimal_value ts)),
      parsed_machineId = Finite (of_nat (decimal_value mid)),
      parsed_sequence = Finite (of_nat (decimal_value sq)),
      randomString1 = Some r1, randomString2 = Some r2\<rparr>"
    by (rule parseTUID_valid [OF s sp v ts(2) ne(1) mid(3) ne(2) sq(3) ne(3)])
  with s sp show "\<exists>ts mid sq r1 r2.
      s = ts @ ''-'' @ mid @ ''-'' @ sq @ ''-'' @ r1 @ ''-'' @ r2
      \<and> split s CHR ''-'' = [ts, mid, sq, r1, r2]
      \<and> parseTUID s
          = Some \<lparr>timestamp = Finite (of_nat (decimal_value ts)),
              parsed_machineId = Finite (of_nat (decimal_value mid)),
              parsed_sequence = Finite (of_nat (decimal_value sq)),
              randomString1 = Some r1, randomString2 = Some r2\<rparr>"
    by blast
next
  have "isValidTUID ''1609459200000-1-0-abcd-efgh''"
    by (simp add: valid_defs)
  then show "parseTUID ''1609459200000-1-0-abcd-efgh''
       = Some \<lparr>timestamp = Finite 1609459200000, parsed_machineId = Finite 1,
           parsed_sequence = Finite 0, randomString1 = Some ''abcd'',
           randomString2 = Some ''efgh''\<rparr>"
    by (simp add: parse_defs)
qed

theorem parseTUID_fields_witness:
  "isValidTUID ''1697034958283-512-3-abc1-def2''
   \<and> parseTUID ''1697034958283-512-3-abc1-def2''
       = Some \<lparr>timestamp = Finite 1697034958283, parsed_machineId = Finite 512,
           parsed_sequence = Finite 3, randomString1 = Some ''abc1'',
           randomString2 = Some ''def2''\<rparr>
   \<and> \<not> isValidTUID ''0-0-0-invalid-tuid''
   \<and> parseTUID ''0-0-0-invalid-tuid'' = None"
proof -
  have "isValidTUID ''1697034958283-512-3-abc1-def2''" "\<not> isValidTUID ''0-0-0-invalid-tuid''"
    by (simp_all add: valid_defs)
  then show ?thesis
    using parseTUID_fields [of "''1697034958283-512-3-abc1-def2''"]
      parseTUID_fields [of "''0-0-0-invalid-tuid''"]
    by (simp add: parse_defs)
qed

section \<open>Uniqueness of timestamp and sequence\<close>

lemma busy_wait_Some:
  "busy_wait prev t cs = Some (t', rest) \<Longrightarrow>
     prev < t' \<and> (\<exists>skipped. t # cs = skipped @ t' # rest \<and> list_all (\<lambda>x. x \<le> prev) skipped)"
proof (induction cs arbitrary: t)
  case Nil
  then have "prev < t'" "t' = t" "rest = []" by (auto split: if_splits)
  then have "t # [] = [] @ t' # rest \<and> list_all (\<lambda>x. x \<le> prev) []" by simp
  with \<open>prev < t'\<close> show ?case by blast
next
  case (Cons c cs)
  show ?case
  proof (cases "t \<le> prev")
    case True
    with Cons.prems have "busy_wait prev c cs = Some (t', rest)" by simp
    from Cons.IH [OF this] obtain skipped where
      "prev < t'" "c # cs = skipped @ t' # rest" "list_all (\<lambda>x. x \<le> prev) skipped"
      by blast
    with True have "t # c # cs = (t # skipped) @ t' # rest
        \<and> list_all (\<lambda>x. x \<le> prev) (t # skipped)" by simp
    with \<open>prev < t'\<close> show ?thesis by blast
  next
    case False
    with Cons.prems have "t' = t" "rest = c # cs" by simp_all
    with False have "prev < t'" "t # c # cs = [] @ t' # rest \<and> list_all (\<lambda>x. x \<le> prev) []"
      by simp_all
    then show ?thesis by blast
  qed
qed

lemma busy_wait_None:
  "(busy_wait prev t cs = None) = list_all (\<lambda>x. x \<le> prev) (t # cs)"
  by (induction cs arbitrary: t) auto

lemma generateV1_consumes:
  assumes "generateV1 nonint g clock d1 d2 = Some (tuid, g', rest)"
  shows "\<exists>skipped. clock = skipped @ lastTimestamp g' # rest"
proof -
  from assms obtain t cs where clock: "clock = t # cs"
    by (cases clock) (auto simp: generateV1_def)
  show ?thesis
  proof (cases "t = lastTimestamp g \<and> js_band (sequence g + 1) 4095 = 0")
    case True
    with assms clock obtain t' where
      bw: "busy_wait (lastTimestamp g) t cs = Some (t', rest)" and "lastTimestamp g' = t'"
      by (auto simp: generateV1_def emit_def Let_def split: option.splits)
    with busy_wait_Some [OF bw] clock show ?thesis by auto
  next
    case False
    with assms clock have "lastTimestamp g' = t" "rest = cs"
      by (auto simp: generateV1_def emit_def Let_def split: if_splits)
    with clock have "clock = [] @ lastTimestamp g' # rest" by simp
    then show ?thesis by blast
  qed
qed

lemma generateV1_sorted:
  assumes "generateV1 nonint g clock d1 d2 = Some (tuid, g', rest)" "sorted clock"
  shows "sorted rest \<and> list_all (\<lambda>x. lastTimestamp g' \<le> x) rest"
proof -
  from generateV1_consumes [OF assms(1)] obtain skipped where
    "clock = skipped @ lastTimestamp g' # rest" by blast
  with assms(2) show ?thesis
    by (simp add: sorted_append list_all_iff)
qed

lemma generateV1_text:
  assumes "generateV1 nonint g clock d1 d2 = Some (tuid, g', rest)"
  shows "tuid = tuid_string nonint (lastTimestamp g') (machineId g') (sequence g')
      (substring (toString36 d1) 2 6) (substring (toString36 d2) 2 6)"
    and "machineId g' = machineId g"
  using assms
  by (auto simp: generateV1_def emit_def Let_def split: list.splits if_splits option.splits)

lemma generateV1_advances:
  assumes "generateV1 nonint g clock d1 d2 = Some (tuid, g', rest)"
    and "list_all (\<lambda>x. lastTimestamp g \<le> x) clock"
    and "0 \<le> sequence g" "sequence g \<le> 4095"
  shows "earlier g g'"
proof -
  from assms(1) obtain t cs where clock: "clock = t # cs"
    by (cases clock) (auto simp: generateV1_def)
  with assms(2) have le: "lastTimestamp g \<le> t" by simp
  show ?thesis
  proof (cases "t = lastTimestamp g")
    case same: True
    show ?thesis
    proof (cases "(sequence g + 1) mod 4096 = 0")
      case True
      with assms(1) clock same obtain t' where
        bw: "busy_wait (lastTimestamp g) t cs = Some (t', rest)" and "lastTimestamp g' = t'"
        by (auto simp: generateV1_def emit_def Let_def js_band_4095 split: option.splits)
      with busy_wait_Some [OF bw] show ?thesis by (simp add: earlier_def)
    next
      case False
      with assms(3,4) have "(sequence g + 1) mod 4096 = sequence g + 1"
        by (cases "sequence g = 4095") simp_all
      with False assms(1) clock same have "lastTimestamp g' = lastTimestamp g"
        "sequence g' = sequence g + 1"
        by (auto simp: generateV1_def emit_def Let_def js_band_4095)
      then show ?thesis by (simp add: earlier_def)
    qed
  next
    case False
    with assms(1) clock have "lastTimestamp g' = t"
      by (auto simp: generateV1_def emit_def Let_def)
    with False le show ?thesis by (simp add: earlier_def)
  qed
qed

lemma earlier_trans: "earlier a b \<Longrightarrow> earlier b c \<Longrightarrow> earlier a c"
  by (auto simp: earlier_def)

lemma generate_many_increasing:
  assumes "generate_many nonint g clock draws = Some (out, rest)"
    and "sorted clock" "list_all (\<lambda>x. lastTimestamp g \<le> x) clock"
    and "0 \<le> sequence g" "sequence g \<le> 4095"
  shows "sorted_wrt earlier (map snd out) \<and> list_all (earlier g) (map snd out)"
  using assms
proof (induction draws arbitrary: g clock out rest)
  case Nil
  then show ?case by simp
next
  case (Cons d draws)
  obtain d1 d2 where d: "d = (d1, d2)" by (cases d)
  from Cons.prems(1) d obtain tuid g' rest1 out' where
    step: "generateV1 nonint g clock d1 d2 = Some (tuid, g', rest1)"
    and more: "generate_many nonint g' rest1 draws = Some (out', rest)"
    and out: "out = (tuid, g') # out'"
    by (auto split: option.splits)
  have adv: "earlier g g'"
    using step Cons.prems(3-5) by (rule generateV1_advances)
  have srt: "sorted rest1" "list_all (\<lambda>x. lastTimestamp g' \<le> x) rest1"
    using generateV1_sorted [OF step Cons.prems(2)] by simp_all
  have rng: "0 \<le> sequence g'" "sequence g' \<le> 4095"
    using generateV1_sequence_range [OF step] by simp_all
  from Cons.IH [OF more srt rng]
  have ih: "sorted_wrt earlier (map snd out')" "list_all (earlier g') (map snd out')"
    by simp_all
  from ih(2) adv have "list_all (earlier g) (map snd out')"
    unfolding list_all_iff using earlier_trans by blast
  with ih adv out show ?case by (simp add: list_all_iff)
qed

lemma generate_many_strictly_increasing:
  assumes "generate_many nonint g clock draws = Some (out, rest)" "sorted clock"
  shows "sorted_wrt earlier (map snd out)"
proof (cases draws)
  case Nil
  with assms show ?thesis by simp
next
  case (Cons d draws')
  obtain d1 d2 where d: "d = (d1, d2)" by (cases d)
  from assms(1) Cons d obtain tuid g' rest1 out' where
    step: "generateV1 nonint g clock d1 d2 = Some (tuid, g', rest1)"
    and more: "generate_many nonint g' rest1 draws' = Some (out', rest)"
    and out: "out = (tuid, g') # out'"
    by (auto split: option.splits)
  have srt: "sorted rest1" "list_all (\<lambda>x. lastTimestamp g' \<le> x) rest1"
    using generateV1_sorted [OF step assms(2)] by simp_all
  have rng: "0 \<le> sequence g'" "sequence g' \<le> 4095"
    using generateV1_sequence_range [OF step] by simp_all
  from generate_many_increasing [OF more srt rng] out show ?thesis
    by (simp add: list_all_iff)
qed

lemma generate_many_text:
  assumes "generate_many nonint g clock draws = Some (out, rest)"
  shows "list_all (\<lambda>(tuid, h). \<exists>r1 r2.
      tuid = tuid_string nonint (lastTimestamp h) (machineId g) (sequence h) r1 r2) out"
  using assms
proof (induction draws arbitrary: g clock out rest)
  case Nil
  then show ?case by simp
next
  case (Cons d draws)
  obtain d1 d2 where d: "d = (d1, d2)" by (cases d)
  from Cons.prems(1) d obtain tuid g' rest1 out' where
    step: "generateV1 nonint g clock d1 d2 = Some (tuid, g', rest1)"
    and more: "generate_many nonint g' rest1 draws = Some (out', rest)"
    and out: "out = (tuid, g') # out'"
    by (auto split: option.splits)
  from generateV1_text [OF step] Cons.IH [OF more] out show ?case
    by auto
qed

text \<open>
  C2. On one instance, with clock readings that never decrease, no two calls of
  \<open>generateV1\<close> that return give identifiers with the same timestamp and the same
  sequence, and each identifier prints the timestamp and the sequence that its call left
  in the instance. When the increment wraps to 0, the call reads the clock until a value
  above \<open>lastTimestamp\<close> appears and emits that value; it returns exactly when the clock
  shows such a value.
\<close>

theorem no_repeated_timestamp_sequence:
  "(sorted clock \<and> generate_many nonint g clock draws = Some (out, rest) \<longrightarrow>
      (\<forall>i j. i < j \<and> j < length out \<longrightarrow>
         \<not> (lastTimestamp (snd (out ! i)) = lastTimestamp (snd (out ! j))
            \<and> sequence (snd (out ! i)) = sequence (snd (out ! j))))
      \<and> list_all (\<lambda>(tuid, h). \<exists>r1 r2.
           tuid = tuid_string nonint (lastTimestamp h) (machineId g) (sequence h) r1 r2) out)
   \<and> (js_band (sequence g + 1) 4095 = 0 \<longrightarrow>
        (generateV1 nonint g (lastTimestamp g # cs) d1 d2 = None)
          = list_all (\<lambda>x. x \<le> lastTimestamp g) cs
        \<and> (generateV1 nonint g (lastTimestamp g # cs) d1 d2 = Some (tuid, g', rest') \<longrightarrow>
             lastTimestamp g < lastTimestamp g'
             \<and> (\<exists>skipped. lastTimestamp g # cs = skipped @ lastTimestamp g' # rest'
                  \<and> list_all (\<lambda>x. x \<le> lastTimestamp g) skipped)))"
proof (intro conjI impI allI)
  fix i j
  assume run: "sorted clock \<and> generate_many nonint g clock draws = Some (out, rest)"
    and ij: "i < j \<and> j < length out"
  from run have "sorted_wrt earlier (map snd out)"
    using generate_many_strictly_increasing by blast
  with ij have "earlier (map snd out ! i) (map snd out ! j)"
    by (simp add: sorted_wrt_iff_nth_less)
  with ij have "earlier (snd (out ! i)) (snd (out ! j))" by simp
  then show "\<not> (lastTimestamp (snd (out ! i)) = lastTimestamp (snd (out ! j))
      \<and> sequence (snd (out ! i)) = sequence (snd (out ! j)))"
    by (auto simp: earlier_def)
next
  assume "sorted clock \<and> generate_many nonint g clock draws = Some (out, rest)"
  then show "list_all (\<lambda>(tuid, h). \<exists>r1 r2.
      tuid = tuid_string nonint (lastTimestamp h) (machineId g) (sequence h) r1 r2) out"
    using generate_many_text by blast
next
  assume "js_band (sequence g + 1) 4095 = 0"
  then show "(generateV1 nonint g (lastTimestamp g # cs) d1 d2 = None)
      = list_all (\<lambda>x. x \<le> lastTimestamp g) cs"
    using busy_wait_None [of "lastTimestamp g" "lastTimestamp g" cs]
    by (auto simp: generateV1_def Let_def split: option.splits)
next
  assume wrap: "js_band (sequence g + 1) 4095 = 0"
    and ret: "generateV1 nonint g (lastTimestamp g # cs) d1 d2 = Some (tuid, g', rest')"
  then obtain t' where
    bw: "busy_wait (lastTimestamp g) (lastTimestamp g) cs = Some (t', rest')"
    and t': "lastTimestamp g' = t'"
    by (auto simp: generateV1_def emit_def Let_def split: option.splits)
  from busy_wait_Some [OF bw] t'
  show "lastTimestamp g < lastTimestamp g'"
    "\<exists>skipped. lastTimestamp g # cs = skipped @ lastTimestamp g' # rest'
        \<and> list_all (\<lambda>x. x \<le> lastTimestamp g) skipped"
    by simp_all
qed

theorem no_repeated_timestamp_sequence_witness:
  "sorted [1609459200000, 1609459200000, 1609459200000, 1609459200001 :: int]
   \<and> generate_many [] \<lparr>sequence = 4094, lastTimestamp = 1609459200000, machineId = Finite 1\<rparr>
        [1609459200000, 1609459200000, 1609459200000, 1609459200001]
        [([10, 11, 12, 13], [14, 15, 16, 17]), ([2, 3, 4, 5], [6, 7, 8, 9])]
      = Some ([(''1609459200000-1-4095-abcd-efgh'',
                \<lparr>sequence = 4095, lastTimestamp = 1609459200000, machineId = Finite 1\<rparr>),
               (''1609459200001-1-0-2345-6789'',
                \<lparr>sequence = 0, lastTimestamp = 1609459200001, machineId = Finite 1\<rparr>)], [])
   \<and> js_band (4095 + 1) 4095 = 0
   \<and> generateV1 [] \<lparr>sequence = 4095, lastTimestamp = 1609459200000, machineId = Finite 1\<rparr>
        [1609459200000, 1609459200000] [2, 3, 4, 5] [6, 7, 8, 9] = None"
proof -
  let ?g = "\<lparr>sequence = 4094, lastTimestamp = 1609459200000, machineId = Finite 1\<rparr>"
  let ?h = "\<lparr>sequence = 4095, lastTimestamp = 1609459200000, machineId = Finite 1\<rparr>"
  have first: "generateV1 [] ?g [1609459200000, 1609459200000, 1609459200000, 1609459200001]
      [10, 11, 12, 13] [14, 15, 16, 17]
     = Some (''1609459200000-1-4095-abcd-efgh'', ?h, [1609459200000, 1609459200000, 1609459200001])"
    by (simp add: generateV1_def emit_def js_band_def render_defs)
  have second: "generateV1 [] ?h [1609459200000, 1609459200000, 1609459200001]
      [2, 3, 4, 5] [6, 7, 8, 9]
     = Some (''1609459200001-1-0-2345-6789'',
         \<lparr>sequence = 0, lastTimestamp = 1609459200001, machineId = Finite 1\<rparr>, [])"
    by (simp add: generateV1_def emit_def js_band_def render_defs)
  have run: "generate_many [] ?g [1609459200000, 1609459200000, 1609459200000, 1609459200001]
        [([10, 11, 12, 13], [14, 15, 16, 17]), ([2, 3, 4, 5], [6, 7, 8, 9])]
      = Some ([(''1609459200000-1-4095-abcd-efgh'', ?h),
               (''1609459200001-1-0-2345-6789'',
                \<lparr>sequence = 0, lastTimestamp = 1609459200001, machineId = Finite 1\<rparr>)], [])"
    by (simp add: first second)
  have wrap: "js_band (4095 + 1) 4095 = 0"
    by (simp add: js_band_def)
  show ?thesis
    using run wrap
      no_repeated_timestamp_sequence [of "[1609459200000, 1609459200000, 1609459200000, 1609459200001]"
        "[]" ?g "[([10, 11, 12, 13], [14, 15, 16, 17]), ([2, 3, 4, 5], [6, 7, 8, 9])]"
        "[(''1609459200000-1-4095-abcd-efgh'', ?h),
          (''1609459200001-1-0-2345-6789'',
           \<lparr>sequence = 0, lastTimestamp = 1609459200001, machineId = Finite 1\<rparr>)]" "[]"
        "[]" "[]" "[]" "[]" ?g "[]"]
      no_repeated_timestamp_sequence [of "[]" "[]" ?h "[]" "[]" "[]"
        "[1609459200000]" "[2, 3, 4, 5]" "[6, 7, 8, 9]"]
    by simp
qed

section \<open>Generated identifiers\<close>

lemma digit_chars_decimal:
  assumes "k < 10"
  shows "decimal_digit (digit_chars ! k) \<and> digit_of (digit_chars ! k) = k"
proof -
  from assms have "k = 0 \<or> k = 1 \<or> k = 2 \<or> k = 3 \<or> k = 4 \<or> k = 5 \<or> k = 6
    \<or> k = 7 \<or> k = 8 \<or> k = 9"
    by arith
  then show ?thesis
    by (elim disjE) (simp_all add: digit_chars_def decimal_digit_def digit_of_def)
qed

lemma digit_chars_lower_alnum: "k < 36 \<Longrightarrow> lower_alnum (digit_chars ! k)"
proof -
  have "list_all lower_alnum digit_chars"
    by (simp add: digit_chars_def lower_alnum_def)
  moreover have "length digit_chars = 36"
    by (simp add: digit_chars_def)
  ultimately show "k < 36 \<Longrightarrow> lower_alnum (digit_chars ! k)"
    by (simp add: list_all_length)
qed

lemma nat_to_string_digits: "list_all decimal_digit (nat_to_string n) \<and> nat_to_string n \<noteq> []"
proof (induction n rule: nat_to_string.induct)
  case (1 n)
  show ?case
  proof (cases "n < 10")
    case True
    then show ?thesis
      by (subst (1 2) nat_to_string.simps) (simp add: digit_chars_decimal)
  next
    case False
    with 1 have "list_all decimal_digit (nat_to_string (n div 10))" by simp
    moreover have "decimal_digit (digit_chars ! (n mod 10))"
      by (simp add: digit_chars_decimal)
    ultimately show ?thesis
      using False by (subst (1 2) nat_to_string.simps) simp
  qed
qed

lemma nat_to_string_length_le: "n < 10 ^ k \<Longrightarrow> 0 < k \<Longrightarrow> length (nat_to_string n) \<le> k"
proof (induction n arbitrary: k rule: nat_to_string.induct)
  case (1 n)
  show ?case
  proof (cases "n < 10")
    case True
    with "1.prems" show ?thesis
      by (subst nat_to_string.simps) simp
  next
    case False
    from "1.prems" obtain k' where k: "k = Suc k'" by (cases k) auto
    with False "1.prems" have "0 < k'" by (cases k') auto
    moreover from "1.prems" k have "n div 10 < 10 ^ k'"
      by (simp add: less_mult_imp_div_less mult.commute)
    ultimately have "length (nat_to_string (n div 10)) \<le> k'"
      using "1.IH" False by simp
    with False k show ?thesis
      by (subst nat_to_string.simps) simp
  qed
qed

lemma nat_to_string_length_gt: "10 ^ k \<le> n \<Longrightarrow> k < length (nat_to_string n)"
proof (induction n arbitrary: k rule: nat_to_string.induct)
  case (1 n)
  show ?case
  proof (cases k)
    case 0
    with nat_to_string_digits [of n] show ?thesis by (cases "nat_to_string n") auto
  next
    case (Suc k')
    with "1.prems" have ge: "10 * 10 ^ k' \<le> n" by simp
    define x where "x = (10::nat) ^ k'"
    have "1 \<le> x" by (simp add: x_def)
    moreover from ge have "10 * x \<le> n" by (simp add: x_def)
    ultimately have "10 \<le> n" by linarith
    then have big: "\<not> n < 10" by simp
    from ge have "10 ^ k' \<le> n div 10"
      by (simp add: less_eq_div_iff_mult_less_eq mult.commute)
    with "1.IH" big have "k' < length (nat_to_string (n div 10))" by simp
    with big Suc show ?thesis
      by (subst nat_to_string.simps) simp
  qed
qed

lemma decimal_value_snoc: "decimal_value (ds @ [c]) = 10 * decimal_value ds + digit_of c"
  by (simp add: decimal_value_def)

lemma decimal_value_nat_to_string: "decimal_value (nat_to_string n) = n"
proof (induction n rule: nat_to_string.induct)
  case (1 n)
  show ?case
  proof (cases "n < 10")
    case True
    then show ?thesis
      by (subst nat_to_string.simps) (simp add: decimal_value_def digit_chars_decimal)
  next
    case False
    with 1 have "decimal_value (nat_to_string (n div 10)) = n div 10" by simp
    with False show ?thesis
      by (subst nat_to_string.simps) (simp add: decimal_value_snoc digit_chars_decimal)
  qed
qed

lemma random_segment:
  assumes "4 \<le> length d"
  shows "substring (toString36 d) 2 6 = map (\<lambda>x. digit_chars ! (x mod 36)) (take 4 d)"
    and "length (substring (toString36 d) 2 6) = 4"
    and "list_all lower_alnum (substring (toString36 d) 2 6)"
proof -
  from assms have ne: "d \<noteq> []" by auto
  from assms have len: "length (toString36 d) = length d + 2"
    by (simp add: toString36_def ne)
  with assms have "min 2 (length (toString36 d)) = 2" "min 6 (length (toString36 d)) = 6"
    by simp_all
  then show eq: "substring (toString36 d) 2 6 = map (\<lambda>x. digit_chars ! (x mod 36)) (take 4 d)"
    by (simp add: substring_def Let_def toString36_def ne take_map)
  show "length (substring (toString36 d) 2 6) = 4"
    unfolding eq using assms by simp
  show "list_all lower_alnum (substring (toString36 d) 2 6)"
    unfolding eq by (simp add: list_all_iff digit_chars_lower_alnum)
qed

lemma int_to_string_nonneg: "0 \<le> i \<Longrightarrow> int_to_string i = nat_to_string (nat i)"
  by (simp add: int_to_string_def)

lemma number_to_string_integer:
  "0 \<le> m \<Longrightarrow> m \<le> 1023 \<Longrightarrow> number_to_string nonint (Finite (of_int m)) = nat_to_string (nat m)"
proof -
  assume m: "0 \<le> m" "m \<le> 1023"
  then have "\<bar>of_int m :: rat\<bar> = of_int m" by simp
  moreover have "(of_int m :: rat) < 10 ^ 21"
  proof -
    from m have "m < 10 ^ 21" by simp
    then have "(of_int m :: rat) < of_int (10 ^ 21)" by (simp only: of_int_less_iff)
    then show ?thesis by simp
  qed
  ultimately show ?thesis
    using m by (simp add: number_to_string_def int_to_string_def)
qed

lemma TUIDGenerator_integer:
  assumes "TUIDGenerator (Finite (of_int m)) = Inr g0"
  shows "0 \<le> m" "m \<le> 1023" "machineId g0 = Finite (of_int m)"
  using assms by (auto simp: TUIDGenerator_def js_greater_def split: if_splits)

lemma nat_to_string_length_13:
  assumes "10 ^ 12 \<le> t" "t < 10 ^ 13"
  shows "length (nat_to_string (nat t)) = 13"
proof -
  from assms have "nat t < 10 ^ 13" "(10::nat) ^ 12 \<le> nat t"
    by (simp_all add: nat_less_iff le_nat_iff)
  then have "length (nat_to_string (nat t)) \<le> 13" "12 < length (nat_to_string (nat t))"
    by (simp_all add: nat_to_string_length_le nat_to_string_length_gt)
  then show ?thesis by simp
qed

lemma nat_to_string_length_4:
  assumes "0 \<le> i" "i \<le> 4095"
  shows "1 \<le> length (nat_to_string (nat i))" "length (nat_to_string (nat i)) \<le> 4"
proof -
  from assms have "nat i < 10 ^ 4" by (simp add: nat_less_iff)
  then show "length (nat_to_string (nat i)) \<le> 4"
    by (simp add: nat_to_string_length_le)
  from nat_to_string_digits [of "nat i"] show "1 \<le> length (nat_to_string (nat i))"
    by (cases "nat_to_string (nat i)") simp_all
qed

text \<open>
  C1. The claim asks every identifier that \<open>generateV1\<close> returns to be valid, to parse
  back to the constructor's \<open>machineId\<close> and to carry two segments of exactly 4 characters;
  the comment in \<open>generateV1\<close> and the repository's test ask the same. The code does not
  deliver it: on the instance constructed with \<open>machineId = 1\<close>, with the clock at
  1609459200000, a first draw of \<open>0.5\<close> prints \<open>0.i\<close>, so \<open>substring(2, 6)\<close> is the single
  character \<open>i\<close>. The call returns \<open>1609459200000-1-0-i-abcd\<close>, which \<open>isValidTUID\<close>
  rejects and for which \<open>parseTUID\<close> returns \<open>null\<close>.
\<close>

theorem generated_identifier_short_segment:
  "TUIDGenerator (Finite 1) = Inr \<lparr>sequence = 0, lastTimestamp = - 1, machineId = Finite 1\<rparr>
   \<and> toString36 [18] = ''0.i''
   \<and> substring (toString36 [18]) 2 6 = ''i''
   \<and> generateV1 [] \<lparr>sequence = 0, lastTimestamp = - 1, machineId = Finite 1\<rparr>
        [1609459200000] [18] [10, 11, 12, 13]
      = Some (''1609459200000-1-0-i-abcd'',
              \<lparr>sequence = 0, lastTimestamp = 1609459200000, machineId = Finite 1\<rparr>, [])
   \<and> isValidTUID ''1609459200000-1-0-i-abcd'' = False
   \<and> parseTUID ''1609459200000-1-0-i-abcd'' = None"
proof -
  have new: "TUIDGenerator (Finite 1)
      = Inr \<lparr>sequence = 0, lastTimestamp = - 1, machineId = Finite 1\<rparr>"
    by (simp add: TUIDGenerator_def js_greater_def)
  have draw: "toString36 [18] = ''0.i''" "substring (toString36 [18]) 2 6 = ''i''"
    by (simp_all add: render_defs)
  have call: "generateV1 [] \<lparr>sequence = 0, lastTimestamp = - 1, machineId = Finite 1\<rparr>
        [1609459200000] [18] [10, 11, 12, 13]
      = Some (''1609459200000-1-0-i-abcd'',
              \<lparr>sequence = 0, lastTimestamp = 1609459200000, machineId = Finite 1\<rparr>, [])"
    by (simp add: generateV1_def emit_def render_defs)
  have invalid: "\<not> isValidTUID ''1609459200000-1-0-i-abcd''"
    by (simp add: valid_defs)
  then have null: "parseTUID ''1609459200000-1-0-i-abcd'' = None"
    by (simp add: parseTUID_def)
  show ?thesis
    using new draw call invalid null by simp
qed

text \<open>
  A draw that prints fewer than four base-36 digits gives a segment of just that many
  characters. With four digits or more the segment has 4 characters; the identifier of an
  instance with an integer \<open>machineId\<close> and a timestamp of 13 digits is then valid and
  parses back to the fields that were printed, so for such instances and timestamps the
  short segment is the only way in which the call goes wrong.
\<close>

lemma random_segment_short:
  assumes "length d < 4"
  shows "length (substring (toString36 d) 2 6) = length d"
proof (cases "d = []")
  case True
  then show ?thesis by (simp add: substring_def toString36_def)
next
  case False
  with assms have "min 2 (length (toString36 d)) = 2"
    "min 6 (length (toString36 d)) = length d + 2"
    by (simp_all add: toString36_def)
  then show ?thesis
    using False by (simp add: substring_def Let_def toString36_def)
qed

lemma round_trip_with_long_draws:
  assumes "TUIDGenerator (Finite (of_int m)) = Inr g0"
    and "machineId g = machineId g0"
    and "generateV1 nonint g clock d1 d2 = Some (tuid, g', rest)"
    and "10 ^ 12 \<le> lastTimestamp g'" "lastTimestamp g' < 10 ^ 13"
    and "4 \<le> length d1" "4 \<le> length d2"
  shows "isValidTUID tuid
    \<and> parseTUID tuid
        = Some \<lparr>timestamp = Finite (of_int (lastTimestamp g')),
            parsed_machineId = Finite (of_int m),
            parsed_sequence = Finite (of_int (sequence g')),
            randomString1 = Some (substring (toString36 d1) 2 6),
            randomString2 = Some (substring (toString36 d2) 2 6)\<rparr>
    \<and> length (substring (toString36 d1) 2 6) = 4
    \<and> list_all lower_alnum (substring (toString36 d1) 2 6)
    \<and> length (substring (toString36 d2) 2 6) = 4
    \<and> list_all lower_alnum (substring (toString36 d2) 2 6)"
proof -
  let ?T = "lastTimestamp g'" and ?S = "sequence g'"
  let ?r1 = "substring (toString36 d1) 2 6" and ?r2 = "substring (toString36 d2) 2 6"
  let ?ts = "nat_to_string (nat ?T)" and ?mid = "nat_to_string (nat m)"
    and ?sq = "nat_to_string (nat ?S)"
  note m = TUIDGenerator_integer [OF assms(1)]
  have S: "0 \<le> ?S" "?S \<le> 4095"
    using generateV1_sequence_range [OF assms(3)] by simp_all
  have T: "0 \<le> ?T" using assms(4) by simp
  have mid_g': "machineId g' = Finite (of_int m)"
    using generateV1_text(2) [OF assms(3)] assms(2) m(3) by simp
  have tuid: "tuid = ?ts @ ''-'' @ ?mid @ ''-'' @ ?sq @ ''-'' @ ?r1 @ ''-'' @ ?r2"
    using generateV1_text(1) [OF assms(3)] mid_g' T S(1) m(1,2)
    by (simp add: tuid_string_def int_to_string_nonneg number_to_string_integer)
  have dig: "list_all decimal_digit ?ts" "list_all decimal_digit ?mid" "list_all decimal_digit ?sq"
    "?ts \<noteq> []" "?mid \<noteq> []" "?sq \<noteq> []"
    using nat_to_string_digits by simp_all
  have len: "length ?ts = 13" "1 \<le> length ?mid" "length ?mid \<le> 4"
    "1 \<le> length ?sq" "length ?sq \<le> 4"
    using nat_to_string_length_13 [OF assms(4,5)] nat_to_string_length_4 [OF S]
      nat_to_string_length_4 [of m] m(1,2)
    by simp_all
  have r1: "length ?r1 = 4" "list_all lower_alnum ?r1"
    using random_segment [OF assms(6)] by simp_all
  have r2: "length ?r2 = 4" "list_all lower_alnum ?r2"
    using random_segment [OF assms(7)] by simp_all
  have "v1_shape tuid"
    unfolding v1_shape_def using tuid dig(1-3) len r1 r2 by blast
  then have valid: "isValidTUID tuid"
    by (simp add: isValidTUID_iff_v1_shape)
  have sp: "split tuid CHR ''-'' = [?ts, ?mid, ?sq, ?r1, ?r2]"
    unfolding tuid
    by (rule split_five_fields)
      (use dig r1 r2 in \<open>simp_all add: decimal_digit_not_dash lower_alnum_not_dash\<close>)
  have "parseTUID tuid = Some \<lparr>timestamp = Finite (of_nat (decimal_value ?ts)),
      parsed_machineId = Finite (of_nat (decimal_value ?mid)),
      parsed_sequence = Finite (of_nat (decimal_value ?sq)),
      randomString1 = Some ?r1, randomString2 = Some ?r2\<rparr>"
    by (rule parseTUID_valid [OF tuid sp valid dig(1,4,2,5,3,6)])
  moreover have "(of_nat (nat ?T) :: rat) = of_int ?T" "(of_nat (nat m) :: rat) = of_int m"
    "(of_nat (nat ?S) :: rat) = of_int ?S"
    using T m(1) S(1) by simp_all
  ultimately have "parseTUID tuid = Some \<lparr>timestamp = Finite (of_int ?T),
      parsed_machineId = Finite (of_int m), parsed_sequence = Finite (of_int ?S),
      randomString1 = Some ?r1, randomString2 = Some ?r2\<rparr>"
    by (simp add: decimal_value_nat_to_string)
  with valid r1 r2 show ?thesis by simp
qed

end
